theory Spec2Isabelle
  imports Complex_Main "HOL-Library.Multiset" "HOL-Library.Sublist"
begin

section \<open>Errors\<close>

text \<open>
  The Python exceptions that the modelled functions can raise. A function that may raise
  returns \<open>error + 'a\<close>, with \<open>Inl\<close> for the exception. \<open>KeyError\<close> carries its argument.
  \<open>OSError\<close> and \<open>JSONDecodeError\<close> are what \<^verbatim>\<open>open\<close> and \<^verbatim>\<open>json.load\<close> raise.
\<close>

datatype error =
    ValueError
  | AxisError
  | TypeError
  | AttributeError
  | KeyError string
  | OSError
  | JSONDecodeError

section \<open>Numbers: binary64\<close>

text \<open>
  \<^verbatim>\<open>np.array\<close> of a \<^verbatim>\<open>List[List[float]]\<close> has dtype float64. A finite float64 is modelled
  by the rational it denotes; every addition and division rounds its exact result to the
  nearest float64, ties to even (53 significant bits, subnormals below \<open>2 ^ - 1022\<close>).
  NaN and the infinities are not values of the model (the only NaN the functions below can
  produce from finite input without overflow is the mean of an empty array, which has its
  own constructor), and the two zeros are one value, as they are under \<^verbatim>\<open>==\<close>.
\<close>

fun bit_length :: "nat \<Rightarrow> nat" where
  "bit_length n = (if n = 0 then 0 else Suc (bit_length (n div 2)))"

declare bit_length.simps [simp del]

definition pow2 :: "int \<Rightarrow> rat" where
  "pow2 e = (if 0 \<le> e then 2 ^ nat e else 1 / 2 ^ nat (- e))"

definition floor_log2 :: "rat \<Rightarrow> int" where
  \<comment> \<open>for \<open>0 < x\<close>: the \<open>e\<close> with \<open>2 ^ e \<le> x < 2 ^ (e + 1)\<close>\<close>
  "floor_log2 x =
     (if 1 \<le> x then int (bit_length (nat \<lfloor>x\<rfloor>)) - 1
      else - int (bit_length (nat (\<lceil>1 / x\<rceil> - 1))))"

definition round_half_even :: "rat \<Rightarrow> int" where
  "round_half_even q =
     (let f = \<lfloor>q\<rfloor>; r = q - of_int f
      in if r < 1 / 2 then f
         else if 1 / 2 < r then f + 1
         else if even f then f else f + 1)"

definition round_binary64 :: "rat \<Rightarrow> rat" where
  "round_binary64 x =
     (if x = 0 then 0
      else let e = max (floor_log2 \<bar>x\<bar>) (- 1022);
               ulp = pow2 (e - 52)
           in sgn x * of_int (round_half_even (\<bar>x\<bar> / ulp)) * ulp)"

definition is_binary64 :: "rat \<Rightarrow> bool" where
  "is_binary64 x \<longleftrightarrow> round_binary64 x = x \<and> \<bar>x\<bar> < 2 ^ 1024"

definition fadd :: "rat \<Rightarrow> rat \<Rightarrow> rat" where
  "fadd x y = round_binary64 (x + y)"

definition fdiv :: "rat \<Rightarrow> nat \<Rightarrow> rat" where
  \<comment> \<open>\<^verbatim>\<open>true_divide\<close> of a float64 sum by the element count\<close>
  "fdiv x n = round_binary64 (x / of_nat n)"

section \<open>The numpy operations used by the pooling functions\<close>

text \<open>
  The values \<^verbatim>\<open>np.array\<close>, \<^verbatim>\<open>np.max\<close>, \<^verbatim>\<open>np.mean\<close> and \<^verbatim>\<open>np.concatenate\<close> exchange here:
  the float64 scalar NaN, a float64 scalar, a one-dimensional array, and a two-dimensional
  array given by its rows (all of one length).
\<close>

datatype ndarray =
    NaN
  | Scalar rat
  | Array1 "rat list"
  | Array2 "rat list list"

definition np_array :: "rat list list \<Rightarrow> error + ndarray" where
  \<comment> \<open>\<^verbatim>\<open>np.array(token_embeddings)\<close>: the empty list gives shape \<open>(0,)\<close>, rows of one length
      give shape \<open>(n, D)\<close>, rows of different lengths raise ValueError (numpy 1.24 and later)\<close>
  "np_array token_embeddings =
     (if token_embeddings = [] then Inr (Array1 [])
      else if list_all (\<lambda>row. length row = length (hd token_embeddings)) token_embeddings
      then Inr (Array2 token_embeddings)
      else Inl ValueError)"

fun np_max_axis0 :: "ndarray \<Rightarrow> error + ndarray" where
  \<comment> \<open>\<^verbatim>\<open>np.max(a, axis=0)\<close>: the maximum has no identity, so a reduction over zero elements
      raises ValueError; otherwise the first element starts the reduction\<close>
  "np_max_axis0 NaN = Inl AxisError"
| "np_max_axis0 (Scalar x) = Inl AxisError"
| "np_max_axis0 (Array1 []) = Inl ValueError"
| "np_max_axis0 (Array1 (x # xs)) = Inr (Scalar (foldl max x xs))"
| "np_max_axis0 (Array2 []) = Inl ValueError"
| "np_max_axis0 (Array2 (row # rows)) = Inr (Array1 (foldl (map2 max) row rows))"

fun np_mean_axis0 :: "ndarray \<Rightarrow> error + ndarray" where
  \<comment> \<open>\<^verbatim>\<open>np.mean(a, axis=0)\<close>: the sum along axis 0, from the identity 0 and in index order,
      divided by the element count; over zero elements it is NaN, with a RuntimeWarning
      and no exception\<close>
  "np_mean_axis0 NaN = Inl AxisError"
| "np_mean_axis0 (Scalar x) = Inl AxisError"
| "np_mean_axis0 (Array1 []) = Inr NaN"
| "np_mean_axis0 (Array1 (x # xs)) =
     Inr (Scalar (fdiv (foldl fadd 0 (x # xs)) (length (x # xs))))"
| "np_mean_axis0 (Array2 []) = Inr (Array1 [])"
| "np_mean_axis0 (Array2 (row # rows)) =
     Inr (Array1 (map (\<lambda>s. fdiv s (length (row # rows)))
                      (foldl (map2 fadd) (replicate (length row) 0) (row # rows))))"

fun np_concatenate :: "ndarray \<Rightarrow> ndarray \<Rightarrow> error + ndarray" where
  \<comment> \<open>\<^verbatim>\<open>np.concatenate((a, b))\<close>: along axis 0; zero-dimensional arrays and arrays of
      different dimensions raise ValueError\<close>
  "np_concatenate (Array1 xs) (Array1 ys) = Inr (Array1 (xs @ ys))"
| "np_concatenate (Array2 xs) (Array2 ys) =
     (if list_all (\<lambda>row. length row = length (hd (xs @ ys))) (xs @ ys)
      then Inr (Array2 (xs @ ys)) else Inl ValueError)"
| "np_concatenate a b = Inl ValueError"

section \<open>LlamaCppEmbeddings: the pooling functions\<close>

definition max_pooling :: "rat list list \<Rightarrow> error + ndarray" where
  "max_pooling token_embeddings =
     (case np_array token_embeddings of
        Inl e \<Rightarrow> Inl e
      | Inr token_embeddings_array \<Rightarrow> np_max_axis0 token_embeddings_array)"

definition average_pooling :: "rat list list \<Rightarrow> error + ndarray" where
  "average_pooling token_embeddings =
     (case np_array token_embeddings of
        Inl e \<Rightarrow> Inl e
      | Inr token_embeddings_array \<Rightarrow> np_mean_axis0 token_embeddings_array)"

definition concatenate_pooling :: "rat list list \<Rightarrow> error + ndarray" where
  "concatenate_pooling token_embeddings =
     (case average_pooling token_embeddings of
        Inl e \<Rightarrow> Inl e
      | Inr avg_embedding \<Rightarrow>
          (case max_pooling token_embeddings of
             Inl e \<Rightarrow> Inl e
           | Inr max_embedding \<Rightarrow> np_concatenate avg_embedding max_embedding))"

section \<open>LlamaCppEmbeddings.get_embeddings\<close>

text \<open>
  \<^verbatim>\<open>self.llm.embed\<close>, written \<open>llm_embed\<close>, is the Model Provider. It is a parameter of
  the model: a call takes the text and the provider's state and gives an embedding or an
  exception, and the next state. The loop appends each embedding and stops at the first exception.
\<close>

fun get_embeddings_loop ::
  "(string \<Rightarrow> 's \<Rightarrow> ('e + 'v) \<times> 's) \<Rightarrow> string list \<Rightarrow> 'v list \<Rightarrow> 's \<Rightarrow> ('e + 'v list) \<times> 's" where
  "get_embeddings_loop llm_embed [] embeddings s = (Inr embeddings, s)"
| "get_embeddings_loop llm_embed (text # texts) embeddings s =
     (case llm_embed text s of
        (Inl e, s') \<Rightarrow> (Inl e, s')
      | (Inr embedding, s') \<Rightarrow> get_embeddings_loop llm_embed texts (embeddings @ [embedding]) s')"

definition get_embeddings ::
  "(string \<Rightarrow> 's \<Rightarrow> ('e + 'v) \<times> 's) \<Rightarrow> string list \<Rightarrow> 's \<Rightarrow> ('e + 'v list) \<times> 's" where
  "get_embeddings llm_embed texts s = get_embeddings_loop llm_embed texts [] s"

text \<open>The provider's state before the call for the \<open>i\<close>-th text, when all earlier calls returned.\<close>

definition state_before ::
  "(string \<Rightarrow> 's \<Rightarrow> ('e + 'v) \<times> 's) \<Rightarrow> string list \<Rightarrow> 's \<Rightarrow> nat \<Rightarrow> 's" where
  "state_before llm_embed texts s i = foldl (\<lambda>st text. snd (llm_embed text st)) s (take i texts)"

text \<open>A provider wrapped so that its state also records the texts it was called with.\<close>

definition recording ::
  "(string \<Rightarrow> 's \<Rightarrow> ('e + 'v) \<times> 's) \<Rightarrow> string \<Rightarrow> 's \<times> string list \<Rightarrow> ('e + 'v) \<times> ('s \<times> string list)" where
  "recording llm_embed text st =
     (case llm_embed text (fst st) of (r, s') \<Rightarrow> (r, (s', snd st @ [text])))"

section \<open>utils: the configuration lookups\<close>

text \<open>
  What \<^verbatim>\<open>json.load\<close> returns: a JSON object is a Python dict, given by its items (looked
  up with \<open>map_of\<close>). The file system is a parameter: what opening and decoding the file at
  a path gives.
\<close>

datatype json =
    JNull
  | JBool bool
  | JInt int
  | JFloat rat
  | JStr string
  | JArray "json list"
  | JObject "(string \<times> json) list"

type_synonym filesystem = "string \<Rightarrow> error + json"

definition read_json :: "filesystem \<Rightarrow> string \<Rightarrow> error + json" where
  "read_json fs file_path = fs file_path"

definition get_value_by_key_json :: "filesystem \<Rightarrow> string \<Rightarrow> string \<Rightarrow> error + json" where
  \<comment> \<open>\<^verbatim>\<open>data.get(key, "Key not found")\<close>; only a dict has \<^verbatim>\<open>get\<close>\<close>
  "get_value_by_key_json fs file_path key =
     (case read_json fs file_path of
        Inl e \<Rightarrow> Inl e
      | Inr (JObject items) \<Rightarrow>
          Inr (case map_of items key of None \<Rightarrow> JStr ''Key not found'' | Some v \<Rightarrow> v)
      | Inr _ \<Rightarrow> Inl AttributeError)"

fun contains :: "json \<Rightarrow> string \<Rightarrow> error + bool" where
  \<comment> \<open>\<^verbatim>\<open>key_name in json_data\<close>: a key of a dict, an element of a list, a substring of a
      string; the other values are not iterable\<close>
  "contains (JObject items) key_name = Inr (key_name \<in> fst ` set items)"
| "contains (JArray xs) key_name = Inr (JStr key_name \<in> set xs)"
| "contains (JStr s) key_name = Inr (sublist key_name s)"
| "contains _ key_name = Inl TypeError"

fun subscript :: "json \<Rightarrow> string \<Rightarrow> error + json" where
  \<comment> \<open>\<^verbatim>\<open>value[name]\<close> with a string \<^verbatim>\<open>name\<close>\<close>
  "subscript (JObject items) name =
     (case map_of items name of None \<Rightarrow> Inl (KeyError name) | Some v \<Rightarrow> Inr v)"
| "subscript _ name = Inl TypeError"

definition missing_key_message :: "string \<Rightarrow> string" where
  "missing_key_message key_name =
     ''The key '' @ [CHR 0x27] @ key_name @ [CHR 0x27] @ '' does not exist in the JSON data.''"

definition get_prompt :: "filesystem \<Rightarrow> string \<Rightarrow> string \<Rightarrow> error + json \<times> json" where
  "get_prompt fs key_name json_path =
     (case read_json fs json_path of
        Inl e \<Rightarrow> Inl e
      | Inr json_data \<Rightarrow>
          (case contains json_data key_name of
             Inl e \<Rightarrow> Inl e
           | Inr True \<Rightarrow>
               (case subscript json_data key_name of
                  Inl e \<Rightarrow> Inl e
                | Inr entry \<Rightarrow>
                    (case subscript entry ''system_prompt'' of
                       Inl e \<Rightarrow> Inl e
                     | Inr system_prompt \<Rightarrow>
                         (case subscript json_data key_name of
                            Inl e \<Rightarrow> Inl e
                          | Inr entry' \<Rightarrow>
                              (case subscript entry' ''user_prompt'' of
                                 Inl e \<Rightarrow> Inl e
                               | Inr user_prompt \<Rightarrow> Inr (system_prompt, user_prompt)))))
           | Inr False \<Rightarrow> Inl (KeyError (missing_key_message key_name))))"

section \<open>Notions used to state the properties\<close>

text \<open>Column \<open>i\<close> of a sequence of vectors: the elements \<open>i\<close> of the vectors, in order.\<close>

definition column :: "nat \<Rightarrow> rat list list \<Rightarrow> rat list" where
  "column i rows = map (\<lambda>row. row ! i) rows"



text \<open>A stub provider for the examples: the embedding of a text is the text with the number
  of calls made before it, and each call counts.\<close>

definition stub_embed :: "string \<Rightarrow> nat \<Rightarrow> (error + nat \<times> string) \<times> nat" where
  "stub_embed text calls = (Inr (calls, text), Suc calls)"

section \<open>The batch driver\<close>

lemma state_before_0: "state_before f texts s 0 = s"
  by (simp add: state_before_def)

lemma state_before_Suc: "state_before f (t # ts) s (Suc i) = state_before f ts (snd (f t s)) i"
  by (simp add: state_before_def)

lemma get_embeddings_loop_run:
  "\<forall>i<length texts. \<exists>v. fst (f (texts ! i) (state_before f texts s i)) = Inr v \<Longrightarrow>
   \<exists>out. get_embeddings_loop f texts acc s = (Inr (acc @ out), state_before f texts s (length texts))
       \<and> length out = length texts
       \<and> (\<forall>i<length texts. fst (f (texts ! i) (state_before f texts s i)) = Inr (out ! i))"
proof (induction texts arbitrary: acc s)
  case Nil
  then show ?case by (simp add: state_before_0)
next
  case (Cons t ts)
  from Cons.prems obtain v where v: "fst (f t s) = Inr v"
    by (force simp: state_before_0)
  obtain s' where step: "f t s = (Inr v, s')"
    using v by (cases "f t s") simp
  have "\<forall>i<length ts. \<exists>w. fst (f (ts ! i) (state_before f ts s' i)) = Inr w"
  proof (intro allI impI)
    fix i assume "i < length ts"
    then have "Suc i < length (t # ts)" by simp
    with Cons.prems have "\<exists>w. fst (f ((t # ts) ! Suc i) (state_before f (t # ts) s (Suc i))) = Inr w"
      by blast
    then show "\<exists>w. fst (f (ts ! i) (state_before f ts s' i)) = Inr w"
      using step by (simp add: state_before_Suc)
  qed
  from Cons.IH [OF this, of "acc @ [v]"] obtain out where out:
    "get_embeddings_loop f ts (acc @ [v]) s' = (Inr ((acc @ [v]) @ out), state_before f ts s' (length ts))"
    "length out = length ts"
    "\<forall>i<length ts. fst (f (ts ! i) (state_before f ts s' i)) = Inr (out ! i)"
    by blast
  have "get_embeddings_loop f (t # ts) acc s = (Inr (acc @ v # out), state_before f (t # ts) s (length (t # ts)))"
    using out(1) step by (simp add: state_before_Suc)
  moreover have "length (v # out) = length (t # ts)"
    using out(2) by simp
  moreover have "\<forall>i<length (t # ts). fst (f ((t # ts) ! i) (state_before f (t # ts) s i)) = Inr ((v # out) ! i)"
  proof (intro allI impI)
    fix i assume "i < length (t # ts)"
    then show "fst (f ((t # ts) ! i) (state_before f (t # ts) s i)) = Inr ((v # out) ! i)"
      using out(3) step by (cases i) (auto simp: state_before_0 state_before_Suc)
  qed
  ultimately show ?case by blast
qed

text \<open>
  C7: when every call of the Model Provider returns, \<^verbatim>\<open>get_embeddings\<close> returns a list as
  long as the list of texts, and its \<open>i\<close>-th element is what the provider returned for the
  \<open>i\<close>-th text (called in the state the earlier calls left); the calls are made in the
  order of the texts.
\<close>

theorem get_embeddings_pointwise:
  assumes "\<forall>i<length texts.
             \<exists>v. fst (llm_embed (texts ! i) (state_before llm_embed texts s i)) = Inr v"
  shows "\<exists>out. get_embeddings llm_embed texts s
                 = (Inr out, state_before llm_embed texts s (length texts))
             \<and> length out = length texts
             \<and> (\<forall>i<length texts.
                   fst (llm_embed (texts ! i) (state_before llm_embed texts s i)) = Inr (out ! i))"
  using get_embeddings_loop_run [of texts llm_embed s "[]"] assms
  by (simp add: get_embeddings_def)

theorem get_embeddings_pointwise_witness:
  "\<exists>out. get_embeddings stub_embed [''a'', ''b'', ''c''] 0 = (Inr out, 3)
     \<and> length out = 3
     \<and> out ! 0 = (0, ''a'') \<and> out ! 1 = (1, ''b'') \<and> out ! 2 = (2, ''c'')"
proof -
  let ?texts = "[''a'', ''b'', ''c'']"
  have sb: "state_before stub_embed ?texts 0 0 = 0" "state_before stub_embed ?texts 0 (Suc 0) = 1"
    "state_before stub_embed ?texts 0 2 = 2" "state_before stub_embed ?texts 0 3 = 3"
    by (simp_all add: state_before_def stub_embed_def)
  have h: "\<forall>i<length ?texts.
      \<exists>v. fst (stub_embed (?texts ! i) (state_before stub_embed ?texts 0 i)) = Inr v"
    by (simp add: stub_embed_def)
  from get_embeddings_pointwise [OF h] obtain out where
    run: "get_embeddings stub_embed ?texts 0 = (Inr out, state_before stub_embed ?texts 0 (length ?texts))"
    and len: "length out = length ?texts"
    and nth: "\<forall>i<length ?texts.
        fst (stub_embed (?texts ! i) (state_before stub_embed ?texts 0 i)) = Inr (out ! i)"
    by blast
  have "out ! 0 = (0, ''a'')" "out ! 1 = (1, ''b'')" "out ! 2 = (2, ''c'')"
    using nth [rule_format, of 0] nth [rule_format, of 1] nth [rule_format, of 2]
    by (simp_all add: sb stub_embed_def)
  with run len show ?thesis
    by (simp add: state_before_def stub_embed_def)
qed

text \<open>
  C8: \<^verbatim>\<open>get_embeddings\<close> on the empty list of texts returns the empty list and makes no
  call of the Model Provider: the provider's state comes back as it was, for every
  provider, and a provider that records its calls has recorded none.
\<close>

theorem get_embeddings_empty:
  "get_embeddings llm_embed [] s = (Inr [], s)
   \<and> get_embeddings (recording llm_embed) [] (s, []) = (Inr [], (s, []))"
  by (simp add: get_embeddings_def)

section \<open>The configuration lookups\<close>

text \<open>
  C9: when the file holds an object without the key, \<^verbatim>\<open>get_value_by_key_json\<close> returns the
  string \<^verbatim>\<open>"Key not found"\<close> and \<^verbatim>\<open>get_prompt\<close> raises KeyError with its message: each
  lookup hands its caller a not-found signal at once.
\<close>

theorem absent_key_signals:
  assumes "fs path = Inr (JObject items)" and "key \<notin> fst ` set items"
  shows "get_value_by_key_json fs path key = Inr (JStr ''Key not found'')
       \<and> get_prompt fs key path = Inl (KeyError (missing_key_message key))"
proof -
  have "map_of items key = None"
    using assms(2) by (simp add: map_of_eq_None_iff)
  then show ?thesis
    using assms by (simp add: get_value_by_key_json_def get_prompt_def read_json_def)
qed

theorem absent_key_signals_witness:
  "get_value_by_key_json (\<lambda>p. Inr (JObject [(''llama'', JInt 4096)])) ''configs/context_lenght.json'' ''gpt''
     = Inr (JStr ''Key not found'')
   \<and> get_prompt (\<lambda>p. Inr (JObject [(''llama'', JInt 4096)])) ''gpt'' ''configs/prompts.json''
     = Inl (KeyError (missing_key_message ''gpt''))"
  using absent_key_signals [of "\<lambda>p. Inr (JObject [(''llama'', JInt 4096)])" _ "[(''llama'', JInt 4096)]" "''gpt''"]
  by simp

text \<open>
  C10: \<^verbatim>\<open>get_value_by_key_json\<close> returns the string \<^verbatim>\<open>"Key not found"\<close> for an absent key,
  and returns the same string for a key bound to it: the two results are one value, so the
  caller cannot tell the two cases apart.
\<close>

theorem sentinel_indistinguishable:
  assumes "fs path = Inr (JObject items)" and "key \<notin> fst ` set items"
    and "fs' path' = Inr (JObject items')" and "map_of items' key = Some (JStr ''Key not found'')"
  shows "get_value_by_key_json fs path key = Inr (JStr ''Key not found'')
       \<and> get_value_by_key_json fs' path' key = Inr (JStr ''Key not found'')
       \<and> get_value_by_key_json fs path key = get_value_by_key_json fs' path' key"
proof -
  have "map_of items key = None"
    using assms(2) by (simp add: map_of_eq_None_iff)
  then show ?thesis
    using assms by (simp add: get_value_by_key_json_def read_json_def)
qed

theorem sentinel_indistinguishable_witness:
  "get_value_by_key_json (\<lambda>p. Inr (JObject [(''llama'', JInt 4096)])) ''c.json'' ''gpt''
     = Inr (JStr ''Key not found'')
   \<and> get_value_by_key_json (\<lambda>p. Inr (JObject [(''gpt'', JStr ''Key not found'')])) ''c.json'' ''gpt''
     = Inr (JStr ''Key not found'')"
  using sentinel_indistinguishable [of "\<lambda>p. Inr (JObject [(''llama'', JInt 4096)])" "''c.json''"
      "[(''llama'', JInt 4096)]" "''gpt''" "\<lambda>p. Inr (JObject [(''gpt'', JStr ''Key not found'')])" "''c.json''"
      "[(''gpt'', JStr ''Key not found'')]"]
  by simp

section \<open>Facts about the reductions and the rounding\<close>

lemma length_foldl_map2:
  "length acc = D \<Longrightarrow> \<forall>row\<in>set rows. length row = D \<Longrightarrow> length (foldl (map2 f) acc rows) = D"
  by (induction rows arbitrary: acc) simp_all

lemma nth_foldl_map2:
  "length acc = D \<Longrightarrow> \<forall>row\<in>set rows. length row = D \<Longrightarrow> i < D \<Longrightarrow>
   foldl (map2 f) acc rows ! i = foldl f (acc ! i) (column i rows)"
  by (induction rows arbitrary: acc) (simp_all add: column_def)

lemma foldl_max_Max: "foldl max x xs = Max (set (x # xs))"
proof (induction xs arbitrary: x)
  case Nil
  show ?case by simp
next
  case (Cons y ys)
  have "foldl max x (y # ys) = Max (set (max x y # ys))"
    using Cons.IH by simp
  also have "\<dots> = Max (set (x # y # ys))"
    by (cases "ys = []") (simp_all add: max.assoc)
  finally show ?case .
qed

lemma np_array_uniform:
  "token_embeddings \<noteq> [] \<Longrightarrow> \<forall>row\<in>set token_embeddings. length row = D \<Longrightarrow>
   np_array token_embeddings = Inr (Array2 token_embeddings)"
  by (cases token_embeddings) (simp_all add: np_array_def list_all_iff)

lemma max_pooling_uniform:
  assumes "token_embeddings \<noteq> []" and "\<forall>row\<in>set token_embeddings. length row = D"
  shows "max_pooling token_embeddings
         = Inr (Array1 (foldl (map2 max) (hd token_embeddings) (tl token_embeddings)))"
  using assms np_array_uniform [OF assms]
  by (cases token_embeddings) (simp_all add: max_pooling_def)

lemma average_pooling_uniform:
  assumes "token_embeddings \<noteq> []" and "\<forall>row\<in>set token_embeddings. length row = D"
  shows "average_pooling token_embeddings
         = Inr (Array1 (map (\<lambda>s. fdiv s (length token_embeddings))
                  (foldl (map2 fadd) (replicate D 0) token_embeddings)))"
  using assms np_array_uniform [OF assms]
  by (cases token_embeddings) (simp_all add: average_pooling_def)

text \<open>
  The rounding is sound: \<open>floor_log2\<close> is the binary exponent of a positive rational, and
  \<open>round_half_even\<close> returns a nearest integer and leaves an integer as it is.
\<close>

lemma bit_length_pos: "0 < n \<Longrightarrow> bit_length n = Suc (bit_length (n div 2))"
  by (subst bit_length.simps) simp

lemma bit_length_bounds:
  "0 < n \<Longrightarrow> 2 ^ (bit_length n - 1) \<le> n \<and> n < 2 ^ bit_length n"
proof (induction n rule: bit_length.induct)
  case (1 n)
  show ?case
  proof (cases "n div 2 = 0")
    case True
    with "1.prems" have "n = 1" by presburger
    then show ?thesis by (simp add: bit_length.simps)
  next
    case False
    then have pos: "0 < n div 2" by simp
    from "1.prems" have n0: "n \<noteq> 0" by simp
    from "1.IH" [OF n0 pos]
    have ih: "2 ^ (bit_length (n div 2) - 1) \<le> n div 2" "n div 2 < 2 ^ bit_length (n div 2)"
      by simp_all
    have bl: "bit_length n = Suc (bit_length (n div 2))"
      using "1.prems" by (rule bit_length_pos)
    obtain k where k: "bit_length (n div 2) = Suc k"
      using bit_length_pos [OF pos] by simp
    have "(2::nat) ^ (bit_length n - 1) = 2 * 2 ^ (bit_length (n div 2) - 1)"
      by (simp add: bl k)
    also have "\<dots> \<le> 2 * (n div 2)"
      using ih(1) by simp
    also have "\<dots> \<le> n" by simp
    finally have lo: "2 ^ (bit_length n - 1) \<le> n" .
    have "n < 2 * (n div 2 + 1)" by presburger
    also have "\<dots> \<le> 2 * 2 ^ bit_length (n div 2)"
      using ih(2) by simp
    finally have "n < 2 ^ bit_length n"
      by (simp add: bl)
    with lo show ?thesis by simp
  qed
qed

lemma pow2_le_of_nat: "2 ^ k \<le> (n::nat) \<Longrightarrow> (2 ^ k :: rat) \<le> of_nat n"
proof -
  assume "2 ^ k \<le> n"
  then have "(of_nat (2 ^ k) :: rat) \<le> of_nat n"
    by (simp only: of_nat_le_iff)
  then show ?thesis by simp
qed

lemma of_nat_less_pow2: "(n::nat) < 2 ^ k \<Longrightarrow> (of_nat n + 1 :: rat) \<le> 2 ^ k"
proof -
  assume "n < 2 ^ k"
  then have "Suc n \<le> 2 ^ k" by simp
  then have "(of_nat (Suc n) :: rat) \<le> of_nat (2 ^ k)"
    by (simp only: of_nat_le_iff)
  then show ?thesis by simp
qed

lemma floor_log2_ge1:
  assumes "1 \<le> x"
  shows "pow2 (floor_log2 x) \<le> x \<and> x < pow2 (floor_log2 x + 1)"
proof -
  define n where "n = nat \<lfloor>x\<rfloor>"
  have fl: "1 \<le> \<lfloor>x\<rfloor>" using assms by simp
  then have n1: "0 < n" by (simp add: n_def)
  obtain k where k: "bit_length n = Suc k"
    using bit_length_pos [OF n1] by simp
  have e: "floor_log2 x = int k"
    using assms by (simp add: floor_log2_def n_def [symmetric] k)
  from bit_length_bounds [OF n1] have b: "2 ^ k \<le> n" "n < 2 ^ Suc k"
    by (simp_all add: k)
  have "(of_nat n :: rat) = of_int \<lfloor>x\<rfloor>"
    using fl by (simp add: n_def)
  then have nx: "of_nat n \<le> x" "x < of_nat n + 1"
    using floor_correct [of x] by simp_all
  have p: "pow2 (int k) = 2 ^ k" "pow2 (int k + 1) = 2 ^ Suc k"
    by (simp_all add: pow2_def nat_add_distrib)
  have "pow2 (floor_log2 x) \<le> x"
    using pow2_le_of_nat [OF b(1)] nx(1) by (simp only: e p)
  moreover have "x < pow2 (floor_log2 x + 1)"
    using of_nat_less_pow2 [OF b(2)] nx(2) by (simp only: e p)
  ultimately show ?thesis by simp
qed

lemma floor_log2_less1:
  assumes "0 < x" and "x < 1"
  shows "pow2 (floor_log2 x) \<le> x \<and> x < pow2 (floor_log2 x + 1)"
proof -
  define y where "y = 1 / x"
  have y1: "1 < y" using assms by (simp add: y_def)
  have xy: "x = 1 / y" by (simp add: y_def)
  define m where "m = nat (\<lceil>y\<rceil> - 1)"
  have cy: "2 \<le> \<lceil>y\<rceil>"
    using y1 by (simp add: le_ceiling_iff)
  then have m1: "0 < m" by (simp add: m_def)
  have "(of_nat m :: rat) = of_int \<lceil>y\<rceil> - 1"
    using cy by (simp add: m_def)
  then have my: "of_nat m < y" "y \<le> of_nat m + 1"
    using ceiling_correct [of y] by simp_all
  obtain k where k: "bit_length m = Suc k"
    using bit_length_pos [OF m1] by simp
  have e: "floor_log2 x = - int (Suc k)"
    using assms(2) by (simp add: floor_log2_def y_def [symmetric] m_def [symmetric] k)
  from bit_length_bounds [OF m1] have b: "2 ^ k \<le> m" "m < 2 ^ Suc k"
    by (simp_all add: k)
  have p: "pow2 (- int (Suc k)) = 1 / 2 ^ Suc k" "pow2 (- int (Suc k) + 1) = 1 / 2 ^ k"
    by (simp_all add: pow2_def nat_add_distrib)
  have up: "y \<le> 2 ^ Suc k"
    using of_nat_less_pow2 [OF b(2)] my(2) by linarith
  have lo: "2 ^ k < y"
    using pow2_le_of_nat [OF b(1)] my(1) by linarith
  have ypos: "0 < y" using y1 by simp
  have "1 / 2 ^ Suc k \<le> 1 / y"
    using up ypos by (intro divide_left_mono) simp_all
  moreover have "1 / y < 1 / 2 ^ k"
    using lo ypos by (intro divide_strict_left_mono) simp_all
  ultimately show ?thesis
    by (simp only: e p xy [symmetric])
qed

lemma floor_log2_bounds:
  "0 < x \<Longrightarrow> pow2 (floor_log2 x) \<le> x \<and> x < pow2 (floor_log2 x + 1)"
  using floor_log2_ge1 [of x] floor_log2_less1 [of x] by (cases "1 \<le> x") simp_all

lemma round_half_even_nearest: "\<bar>of_int (round_half_even q) - q\<bar> \<le> 1 / 2"
proof -
  define f where "f = \<lfloor>q\<rfloor>"
  have "of_int f \<le> q" and "q < of_int f + 1"
    using floor_correct [of q] by (simp_all add: f_def)
  then have "\<bar>of_int (if q - of_int f < 1 / 2 then f
                        else if 1 / 2 < q - of_int f then f + 1
                        else if even f then f else f + 1) - q\<bar> \<le> 1 / 2"
    by (auto simp: abs_if)
  then show ?thesis
    unfolding round_half_even_def Let_def f_def .
qed

lemma round_half_even_of_int: "round_half_even (of_int n) = n"
  by (simp add: round_half_even_def)

text \<open>The values of the rounding that the examples below use.\<close>

lemma floor_numeral_div: "\<lfloor>numeral a / numeral b :: rat\<rfloor> = numeral a div numeral b"
  using floor_divide_of_int_eq [of "numeral a" "numeral b", where ?'a = rat] by simp

lemmas round_defs = round_binary64_def floor_log2_def pow2_def round_half_even_def Let_def

lemma bit_length_values:
  "bit_length 10000000000000001 = 54" "bit_length 10000000000000000 = 54"
  "bit_length (Suc 0) = 1" "bit_length 2 = 2" "bit_length 3 = 2" "bit_length 4 = 3"
  "bit_length 5 = 3" "bit_length 6 = 3" "bit_length 9 = 4" "bit_length 12 = 4"
  by (simp_all add: bit_length.simps)

lemma round_binary64_values:
  "round_binary64 0 = 0" "round_binary64 1 = 1" "round_binary64 2 = 2" "round_binary64 3 = 3"
  "round_binary64 4 = 4" "round_binary64 5 = 5" "round_binary64 6 = 6" "round_binary64 9 = 9"
  "round_binary64 12 = 12"
  "round_binary64 10000000000000000 = 10000000000000000"
  "round_binary64 10000000000000001 = 10000000000000000"
  "round_binary64 (1 / 3) = 6004799503160661 / 18014398509481984"
  by (simp_all add: round_defs bit_length_values floor_numeral_div)

lemma is_binary64_values:
  "is_binary64 0" "is_binary64 1" "is_binary64 2" "is_binary64 3" "is_binary64 4"
  "is_binary64 5" "is_binary64 6" "is_binary64 9" "is_binary64 12"
  by (simp_all add: is_binary64_def round_binary64_values)






lemma round_binary64_exact: "is_binary64 x \<Longrightarrow> round_binary64 x = x"
  by (simp add: is_binary64_def)

lemma max_pooling_nth:
  assumes "token_embeddings \<noteq> []" and "\<forall>row\<in>set token_embeddings. length row = D"
  shows "\<exists>mx. max_pooling token_embeddings = Inr (Array1 mx)
            \<and> length mx = D
            \<and> (\<forall>i<D. mx ! i = Max (set (column i token_embeddings)))"
proof -
  obtain row rows where t: "token_embeddings = row # rows"
    using assms(1) by (cases token_embeddings) auto
  let ?mx = "foldl (map2 max) row rows"
  have len: "length row = D" "\<forall>r\<in>set rows. length r = D"
    using assms(2) t by simp_all
  have "max_pooling token_embeddings = Inr (Array1 ?mx)"
    using max_pooling_uniform [OF assms] t by simp
  moreover have "length ?mx = D"
    using len by (rule length_foldl_map2)
  moreover have "\<forall>i<D. ?mx ! i = Max (set (column i token_embeddings))"
  proof (intro allI impI)
    fix i assume "i < D"
    with len have "?mx ! i = foldl max (row ! i) (column i rows)"
      by (rule nth_foldl_map2)
    then show "?mx ! i = Max (set (column i token_embeddings))"
      by (simp add: foldl_max_Max t column_def)
  qed
  ultimately show ?thesis by blast
qed


section \<open>The pooling functions on a non-empty sequence\<close>




text \<open>
  C2: for a non-empty sequence of vectors of one dimension \<open>D\<close>, \<^verbatim>\<open>max_pooling\<close> returns a
  vector of dimension \<open>D\<close> whose element \<open>i\<close> is the maximum of the elements \<open>i\<close> of the
  vectors: the maximum is taken element by element, not of one chosen vector.
\<close>

theorem max_pooling_elementwise:
  assumes "token_embeddings \<noteq> []" and "\<forall>row\<in>set token_embeddings. length row = D"
  shows "\<exists>mx. max_pooling token_embeddings = Inr (Array1 mx)
            \<and> length mx = D
            \<and> (\<forall>i<D. mx ! i = Max (set (column i token_embeddings)))"
  using assms by (rule max_pooling_nth)

theorem max_pooling_elementwise_witness:
  "max_pooling [[1, 6], [5, 2], [3, 4]] = Inr (Array1 [5, 6])"
proof -
  let ?t = "[[1, 6], [5, 2], [3, 4 :: rat]]"
  have ne: "?t \<noteq> []" and un: "\<forall>row\<in>set ?t. length row = 2"
    by simp_all
  from max_pooling_elementwise [OF ne un] obtain mx where
    m: "max_pooling ?t = Inr (Array1 mx)" and l: "length mx = 2"
    and n: "\<forall>i<2. mx ! i = Max (set (column i ?t))"
    by blast
  have "mx ! 0 = 5" "mx ! 1 = 6"
    using n [rule_format, of 0] n [rule_format, of 1] by (simp_all add: column_def)
  then have "mx = [5, 6]"
    using l by (intro nth_equalityI) (auto simp: less_Suc_eq numeral_2_eq_2)
  with m show ?thesis by simp
qed

text \<open>
  C3: for a non-empty sequence of vectors of one dimension \<open>D\<close>, \<^verbatim>\<open>concatenate_pooling\<close>
  returns a vector of dimension \<open>2 * D\<close>; its first \<open>D\<close> elements are the result of
  \<^verbatim>\<open>average_pooling\<close> and its last \<open>D\<close> elements the result of \<^verbatim>\<open>max_pooling\<close> on the same
  input, exactly.
\<close>

theorem concatenate_pooling_halves:
  assumes "token_embeddings \<noteq> []" and "\<forall>row\<in>set token_embeddings. length row = D"
  shows "\<exists>out. concatenate_pooling token_embeddings = Inr (Array1 out)
            \<and> length out = 2 * D
            \<and> average_pooling token_embeddings = Inr (Array1 (take D out))
            \<and> max_pooling token_embeddings = Inr (Array1 (drop D out))"
proof -
  let ?avg = "map (\<lambda>s. fdiv s (length token_embeddings))
                (foldl (map2 fadd) (replicate D 0) token_embeddings)"
  let ?mx = "foldl (map2 max) (hd token_embeddings) (tl token_embeddings)"
  have a: "average_pooling token_embeddings = Inr (Array1 ?avg)"
    by (rule average_pooling_uniform [OF assms])
  have m: "max_pooling token_embeddings = Inr (Array1 ?mx)"
    by (rule max_pooling_uniform [OF assms])
  have la: "length ?avg = D"
    using assms(2) by (simp add: length_foldl_map2)
  have lm: "length ?mx = D"
    using assms by (cases token_embeddings) (simp_all add: length_foldl_map2)
  have "concatenate_pooling token_embeddings = Inr (Array1 (?avg @ ?mx))"
    by (simp add: concatenate_pooling_def a m)
  with a m la lm show ?thesis
    by (intro exI [of _ "?avg @ ?mx"]) simp
qed

theorem concatenate_pooling_halves_witness:
  "concatenate_pooling [[1, 2], [3, 4], [5, 6]] = Inr (Array1 [3, 4, 5, 6])"
proof -
  let ?t = "[[1, 2], [3, 4], [5, 6 :: rat]]"
  have ne: "?t \<noteq> []" and un: "\<forall>row\<in>set ?t. length row = 2"
    by simp_all
  from concatenate_pooling_halves [OF ne un] obtain out where
    c: "concatenate_pooling ?t = Inr (Array1 out)"
    and a: "average_pooling ?t = Inr (Array1 (take 2 out))"
    and m: "max_pooling ?t = Inr (Array1 (drop 2 out))"
    by blast
  have "average_pooling ?t = Inr (Array1 [3, 4])"
    by (simp add: average_pooling_def np_array_def fadd_def fdiv_def round_binary64_values)
  with a have t: "take 2 out = [3, 4]" by simp
  have "max_pooling ?t = Inr (Array1 [5, 6])"
    by (simp add: max_pooling_def np_array_def)
  with m have d: "drop 2 out = [5, 6]" by simp
  have "out = take 2 out @ drop 2 out" by simp
  with t d have "out = [3, 4, 5, 6]" by simp
  with c show ?thesis by simp
qed

text \<open>
  C6: for a single vector \<open>v\<close> of float64 numbers, \<^verbatim>\<open>average_pooling\<close> and
  \<^verbatim>\<open>max_pooling\<close> of \<open>[v]\<close> return \<open>v\<close>, and both halves of the result of
  \<^verbatim>\<open>concatenate_pooling\<close> are \<open>v\<close>.
\<close>

theorem single_vector_pooling:
  assumes "\<forall>x\<in>set v. is_binary64 x"
  shows "average_pooling [v] = Inr (Array1 v)
       \<and> max_pooling [v] = Inr (Array1 v)
       \<and> (\<exists>out. concatenate_pooling [v] = Inr (Array1 out)
              \<and> take (length v) out = v \<and> drop (length v) out = v)"
proof -
  have "map (\<lambda>s. fdiv s (Suc 0)) (map2 fadd (replicate (length v) 0) v) = v"
  proof (rule nth_equalityI)
    show "length (map (\<lambda>s. fdiv s (Suc 0)) (map2 fadd (replicate (length v) 0) v)) = length v"
      by simp
  next
    fix i assume "i < length (map (\<lambda>s. fdiv s (Suc 0)) (map2 fadd (replicate (length v) 0) v))"
    then have i: "i < length v" by simp
    then have "is_binary64 (v ! i)"
      using assms by simp
    then show "map (\<lambda>s. fdiv s (Suc 0)) (map2 fadd (replicate (length v) 0) v) ! i = v ! i"
      using i by (simp add: fadd_def fdiv_def round_binary64_exact)
  qed
  then have a: "average_pooling [v] = Inr (Array1 v)"
    by (simp add: average_pooling_def np_array_def)
  have m: "max_pooling [v] = Inr (Array1 v)"
    by (simp add: max_pooling_def np_array_def)
  have "concatenate_pooling [v] = Inr (Array1 (v @ v))"
    by (simp add: concatenate_pooling_def a m)
  with a m show ?thesis by simp
qed

theorem single_vector_pooling_witness:
  "average_pooling [[1, 2, 3]] = Inr (Array1 [1, 2, 3])
   \<and> max_pooling [[1, 2, 3]] = Inr (Array1 [1, 2, 3])
   \<and> concatenate_pooling [[1, 2, 3]] = Inr (Array1 [1, 2, 3, 1, 2, 3])"
proof -
  have h: "\<forall>x\<in>set [1, 2, 3 :: rat]. is_binary64 x"
    by (simp add: is_binary64_values)
  from single_vector_pooling [OF h] show ?thesis
    by (auto simp: concatenate_pooling_def)
qed




section \<open>Pooling an empty sequence\<close>

text \<open>
  C4, as the code has it: on the empty sequence \<^verbatim>\<open>max_pooling\<close> and
  \<^verbatim>\<open>concatenate_pooling\<close> raise ValueError (the reduction of \<^verbatim>\<open>np.max\<close> over zero
  elements), and \<^verbatim>\<open>average_pooling\<close> raises nothing and returns NaN.
\<close>

theorem empty_pooling:
  "max_pooling [] = Inl ValueError
   \<and> concatenate_pooling [] = Inl ValueError
   \<and> average_pooling [] = Inr NaN"
  by (simp add: max_pooling_def average_pooling_def concatenate_pooling_def np_array_def)

text \<open>The claim that all three fail on the empty sequence does not hold for \<^verbatim>\<open>average_pooling\<close>.\<close>

theorem empty_average_is_nan: "average_pooling [] = Inr NaN \<and> \<not> isl (average_pooling [])"
  by (simp add: average_pooling_def np_array_def)

end
